theory Spec2Isabelle
  imports Main "HOL-Library.Multiset"
begin

section \<open>The rules of the game (rules.py)\<close>

text \<open>
  The board is a square numpy array created by \<open>np.zeros((n, n))\<close>; its cells only ever
  hold the values 0, 1 and -1, on which floating-point sums are exact, so a cell is an
  \<open>int\<close> and the board a list of rows. A move is a tuple \<open>(x, y)\<close> of Python integers:
  row first, column second.
\<close>

type_synonym board = "int list list"
type_synonym move = "int \<times> int"

abbreviation EMPTY :: int where "EMPTY \<equiv> 0"
abbreviation NOUGHT :: int where "NOUGHT \<equiv> 1"
abbreviation CROSS :: int where "CROSS \<equiv> - 1"

definition sides :: "int list" where
  "sides = [CROSS, NOUGHT]"

definition tokens :: "int \<rightharpoonup> string" where
  "tokens = [EMPTY \<mapsto> '' '', NOUGHT \<mapsto> ''o'', CROSS \<mapsto> ''x'']"

definition names :: "int \<rightharpoonup> string" where
  "names = [EMPTY \<mapsto> '' '', NOUGHT \<mapsto> ''Noughts'', CROSS \<mapsto> ''Crosses'']"

text \<open>\<open>token\<close> and \<open>side_name\<close>: a dictionary lookup whose KeyError is caught.\<close>

definition token :: "int \<Rightarrow> string" where
  "token v = (case tokens v of Some t \<Rightarrow> t | None \<Rightarrow> ''?'')"

definition side_name :: "int \<Rightarrow> string" where
  "side_name v = (case names v of Some t \<Rightarrow> t | None \<Rightarrow> ''?'')"

definition opponent :: "int \<Rightarrow> int" where
  "opponent s = - s"

text \<open>
  \<open>np.transpose(np.nonzero(board == EMPTY))\<close>: the index pairs of the cells equal to
  EMPTY, rows in increasing order and, within a row, columns in increasing order.
\<close>

definition empty_cells :: "board \<Rightarrow> move list" where
  "empty_cells b =
     concat (map (\<lambda>i. map (\<lambda>j. (int i, int j))
                          (filter (\<lambda>j. b ! i ! j = EMPTY) [0..<length (b ! i)]))
                 [0..<length b])"

text \<open>\<open>list(move) in empty_cells(board).tolist()\<close>: membership by equality, no indexing.\<close>

definition valid_move :: "board \<Rightarrow> move \<Rightarrow> bool" where
  "valid_move b m = (m \<in> set (empty_cells b))"

text \<open>
  The exceptions of the two modules. Both ValueErrors are Python's \<open>ValueError\<close>; they
  differ in their message, which carries the expected number of players for the first and
  the rejected move for the second.
\<close>

datatype error =
    IndexError
  | ValueError_players nat
  | ValueError_move move

text \<open>
  An integer index on an axis of a numpy array: a negative index counts from the end,
  an index outside \<open>-size \<le> i < size\<close> raises IndexError.
\<close>

definition axis_index :: "nat \<Rightarrow> int \<Rightarrow> error + nat" where
  "axis_index len i =
     (if 0 \<le> i \<and> i < int len then Inr (nat i)
      else if - int len \<le> i \<and> i < 0 then Inr (nat (i + int len))
      else Inl IndexError)"

text \<open>\<open>board.shape[1]\<close>, \<open>board[:, j]\<close>, \<open>board.diagonal()\<close> and \<open>np.fliplr(board)\<close>.\<close>

definition ncols :: "board \<Rightarrow> nat" where
  "ncols b = (case b of [] \<Rightarrow> 0 | r # _ \<Rightarrow> length r)"

definition column :: "board \<Rightarrow> nat \<Rightarrow> int list" where
  "column b j = map (\<lambda>r. r ! j) b"

definition diagonal :: "board \<Rightarrow> int list" where
  "diagonal b = map (\<lambda>i. b ! i ! i) [0..<min (length b) (ncols b)]"

definition fliplr :: "board \<Rightarrow> board" where
  "fliplr b = map rev b"

text \<open>
  \<open>winning_move\<close>: the if/elif chain of the source, in its order. \<open>board[x]\<close> is evaluated
  first and \<open>board[:, y]\<close> only when the row test fails, so an out-of-range \<open>y\<close> raises only
  then.
\<close>

definition winning_move :: "board \<Rightarrow> move \<Rightarrow> error + bool" where
  "winning_move b m =
     (let n = length b; x = fst m; y = snd m in
      case axis_index n x of
        Inl e \<Rightarrow> Inl e
      | Inr i \<Rightarrow>
          if abs (sum_list (b ! i)) = int n then Inr True
          else (case axis_index (ncols b) y of
                  Inl e \<Rightarrow> Inl e
                | Inr j \<Rightarrow>
                    if abs (sum_list (column b j)) = int n then Inr True
                    else if x = y \<and> abs (sum_list (diagonal b)) = int n then Inr True
                    else if x = (int n - 1) - y
                            \<and> abs (sum_list (diagonal (fliplr b))) = int n then Inr True
                    else Inr False))"

text \<open>\<open>EMPTY not in board\<close>: no cell of the array equals EMPTY.\<close>

definition board_full :: "board \<Rightarrow> bool" where
  "board_full b = (EMPTY \<notin> set (concat b))"

text \<open>\<open>sep.join(parts)\<close> of Python.\<close>

fun join :: "string \<Rightarrow> string list \<Rightarrow> string" where
  "join sep [] = []"
| "join sep [p] = p"
| "join sep (p # q # ps) = p @ sep @ join sep (q # ps)"

definition board_str :: "board \<Rightarrow> string" where
  "board_str b = join [CHR 0x0A] (map (\<lambda>row. join ''|'' (map token row)) b)"

text \<open>
  The boards the program works on: \<open>n\<close> rows of \<open>n\<close> cells each, and the cell values the
  rules know.
\<close>

definition square :: "nat \<Rightarrow> board \<Rightarrow> bool" where
  "square n b = (length b = n \<and> list_all (\<lambda>r. length r = n) b)"

definition cell_ok :: "int \<Rightarrow> bool" where
  "cell_ok v = (v = EMPTY \<or> v = NOUGHT \<or> v = CROSS)"

definition cells_ok :: "board \<Rightarrow> bool" where
  "cells_ok b = list_all (list_all cell_ok) b"


section \<open>The simulation (tictactoe.py)\<close>

text \<open>
  Players are objects: the game holds references to them, and the same object may be
  referred to twice. A player is therefore an object identity, and the attribute
  \<open>player.side\<close>, which \<open>set_players\<close> assigns, lives in a store indexed by identity.

  What a player answers to \<open>move\<close> is not part of the two modules: it is a parameter of the
  model, a function of the player asked, of every call made on the players so far (which
  stands for whatever the players remember) and of the copy of the board handed over.
  The calls made on the players are recorded, in order; the record is not program state,
  it only lets the theorems speak about notifications and requests.
\<close>

type_synonym pid = nat

datatype event =
    Start pid
  | Move pid board
  | Finish pid "int option"

type_synonym strategy = "pid \<Rightarrow> event list \<Rightarrow> board \<Rightarrow> move"

record tictactoe =
  board :: board
  players :: "pid list"
  shuffle :: bool
  side :: "pid \<Rightarrow> int"
  calls :: "event list"

text \<open>
  \<open>set_players\<close>: the length check, then \<open>player.side = side\<close> for the pairs of
  \<open>zip(players, rules.sides)\<close> from left to right, then the list itself (not a copy) is
  stored.
\<close>

definition set_players :: "pid list \<Rightarrow> tictactoe \<Rightarrow> error + tictactoe" where
  "set_players ps g =
     (if length ps \<noteq> length sides then Inl (ValueError_players (length sides))
      else Inr (g\<lparr>side := fold (\<lambda>(p, s) f. f(p := s)) (zip ps sides) (side g),
                  players := ps\<rparr>))"

text \<open>
  The constructor: a board of zeros, then \<open>set_players\<close>, whose error leaves no object.
  \<open>sd\<close> is what the side attributes of the player objects hold beforehand. The logger
  only receives text and is left out.
\<close>

definition init :: "pid list \<Rightarrow> nat \<Rightarrow> bool \<Rightarrow> (pid \<Rightarrow> int) \<Rightarrow> error + tictactoe" where
  "init ps n sh sd =
     set_players ps
       \<lparr>board = replicate n (replicate n EMPTY), players = [], shuffle = sh,
        side = sd, calls = []\<rparr>"

text \<open>\<open>board.fill(EMPTY)\<close> and \<open>board[move] = s\<close>; the latter is only reached after
  \<open>valid_move\<close> has accepted the move, which puts both coordinates in range.\<close>

definition fill :: "board \<Rightarrow> int \<Rightarrow> board" where
  "fill b v = map (map (\<lambda>_. v)) b"

definition set_cell :: "board \<Rightarrow> move \<Rightarrow> int \<Rightarrow> board" where
  "set_cell b m s = b[nat (fst m) := (b ! nat (fst m))[nat (snd m) := s]]"

text \<open>
  One pass through the body of the loop of \<open>play\<close>, for the player whose turn it is.
  The first component is \<open>None\<close> when the loop goes on, \<open>Some (Inr w)\<close> when \<open>play\<close>
  returns \<open>w\<close> (a side, or Python's \<open>None\<close> for a draw), \<open>Some (Inl e)\<close> when it raises.
\<close>

definition turn :: "strategy \<Rightarrow> pid \<Rightarrow> tictactoe \<Rightarrow> (error + int option) option \<times> tictactoe" where
  "turn st p g =
     (let m = st p (calls g) (board g);
          g1 = g\<lparr>calls := calls g @ [Move p (board g)]\<rparr>
      in if valid_move (board g1) m then
           (let g2 = g1\<lparr>board := set_cell (board g1) m (side g1 p)\<rparr> in
            case winning_move (board g2) m of
              Inl e \<Rightarrow> (Some (Inl e), g2)
            | Inr True \<Rightarrow> (Some (Inr (Some (side g2 p))), g2)
            | Inr False \<Rightarrow>
                if board_full (board g2) then (Some (Inr None), g2) else (None, g2))
         else (Some (Inl (ValueError_move m)), g1))"

text \<open>
  The loop \<open>for player in cycle(players)\<close>. Nothing in the source bounds it, so the model
  carries fuel: the number of passes it may still make. With the fuel used up the first
  component is \<open>None\<close> and the second is the state reached after that many passes.
\<close>

fun play_loop ::
  "nat \<Rightarrow> strategy \<Rightarrow> pid list \<Rightarrow> nat \<Rightarrow> tictactoe \<Rightarrow> (error + int option) option \<times> tictactoe"
where
  "play_loop 0 st cyc i g = (None, g)"
| "play_loop (Suc k) st cyc i g =
     (case turn st (cyc ! (i mod length cyc)) g of
        (None, g') \<Rightarrow> play_loop k st cyc (Suc i) g'
      | (Some r, g') \<Rightarrow> (Some r, g'))"

text \<open>
  \<open>play\<close>. \<open>random.shuffle\<close> reorders the list it is given in place, and \<open>players()\<close>
  returns the stored list itself, so the stored order changes; \<open>rnd\<close> is the
  rearrangement the random generator picks. Cycling over an empty list ends the loop at
  once and the function returns \<open>None\<close>.
\<close>

definition play ::
  "nat \<Rightarrow> strategy \<Rightarrow> (pid list \<Rightarrow> pid list) \<Rightarrow> tictactoe
     \<Rightarrow> (error + int option) option \<times> tictactoe" where
  "play fuel st rnd g =
     (let g1 = (if shuffle g then g\<lparr>players := rnd (players g)\<rparr> else g) in
      if players g1 = [] then (Some (Inr None), g1)
      else play_loop fuel st (players g1) 0 g1)"

text \<open>
  \<open>run\<close>: reset, \<open>start()\<close> on every player, \<open>play\<close>, \<open>finish(winner)\<close> on every player.
  An exception of \<open>play\<close> passes through \<open>run\<close>, so no \<open>finish\<close> follows it.
\<close>

definition run ::
  "nat \<Rightarrow> strategy \<Rightarrow> (pid list \<Rightarrow> pid list) \<Rightarrow> tictactoe
     \<Rightarrow> (error + int option) option \<times> tictactoe" where
  "run fuel st rnd g =
     (let g1 = g\<lparr>board := fill (board g) EMPTY\<rparr>;
          g2 = g1\<lparr>calls := calls g1 @ map Start (players g1)\<rparr>
      in case play fuel st rnd g2 of
           (Some (Inr winner), g3) \<Rightarrow>
             (Some (Inr winner),
              g3\<lparr>calls := calls g3 @ map (\<lambda>p. Finish p winner) (players g3)\<rparr>)
         | (r, g3) \<Rightarrow> (r, g3))"

text \<open>What the theorems say about a game and about the calls made on the players.\<close>

definition side_ok :: "int \<Rightarrow> bool" where
  "side_ok s = (s \<in> set sides)"

definition wf_game :: "nat \<Rightarrow> tictactoe \<Rightarrow> bool" where
  "wf_game n g =
     (square n (board g) \<and> cells_ok (board g) \<and> length (players g) = length sides
      \<and> list_all (\<lambda>p. side_ok (side g p)) (players g))"

fun is_Move :: "event \<Rightarrow> bool" where
  "is_Move (Move p b) = True"
| "is_Move e = False"

fun is_move_of :: "pid \<Rightarrow> event \<Rightarrow> bool" where
  "is_move_of p (Move q b) = (p = q)"
| "is_move_of p e = False"

definition requests :: "event list \<Rightarrow> nat" where
  "requests tr = length (filter is_Move tr)"

text \<open>
  A player that plays a fixed list of moves: its k-th answer is the k-th of the list. It
  is only asked as many times as its list is long.
\<close>

definition scripted :: "(pid \<Rightarrow> move list) \<Rightarrow> strategy" where
  "scripted sc p tr b = sc p ! length (filter (is_move_of p) tr)"

text \<open>The side each entry of the player list holds after \<open>set_players\<close>.\<close>

definition assigned :: "pid list \<Rightarrow> tictactoe \<Rightarrow> error + int list" where
  "assigned ps g =
     (case set_players ps g of Inl e \<Rightarrow> Inl e | Inr g' \<Rightarrow> Inr (map (side g') (players g')))"

text \<open>The number of EMPTY cells of a board: what the loop of \<open>play\<close> uses up.\<close>

definition count_empty :: "board \<Rightarrow> nat" where
  "count_empty b = sum_list (map (\<lambda>r. length (filter (\<lambda>v. v = EMPTY) r)) b)"

text \<open>
  A game to run the definitions on: the one the constructor builds for the two players
  0 and 1, in that order. And a player that always answers the same move.
\<close>

definition example_game :: "nat \<Rightarrow> bool \<Rightarrow> tictactoe" where
  "example_game n sh =
     \<lparr>board = replicate n (replicate n EMPTY), players = [0, 1], shuffle = sh,
      side = (\<lambda>_. EMPTY)(0 := CROSS, 1 := NOUGHT), calls = []\<rparr>"

definition diagonal_script :: "pid \<Rightarrow> pid \<Rightarrow> pid \<Rightarrow> move list" where
  "diagonal_script a b p = (if p = a then [(0, 0), (1, 1), (2, 2)] else [(0, 1), (1, 0)])"

definition always :: "move \<Rightarrow> strategy" where
  "always m p tr b = m"

section \<open>Reading a rendered board back\<close>

text \<open>
  Modelled from the spec: a parser of the text that \<open>board_str\<close> produces. The repository
  has none; the specification speaks of "re-parsing tokens back to values", with rows
  separated by newlines, columns by \<open>|\<close>, a space for EMPTY and \<open>o\<close> and \<open>x\<close> for the
  two sides. \<open>split_on\<close> is Python's \<open>str.split(sep)\<close> for a one-character separator;
  the empty text is the board without rows; a token that is none of the three has no value.
\<close>

fun split_on :: "char \<Rightarrow> string \<Rightarrow> string list" where
  "split_on c [] = [[]]"
| "split_on c (x # xs) =
     (if x = c then [] # split_on c xs
      else (case split_on c xs of [] \<Rightarrow> [[x]] | w # ws \<Rightarrow> (x # w) # ws))"

definition untoken :: "string \<Rightarrow> int option" where
  "untoken t =
     (if t = '' '' then Some EMPTY
      else if t = ''o'' then Some NOUGHT
      else if t = ''x'' then Some CROSS
      else None)"

definition parse_row :: "string \<Rightarrow> int list option" where
  "parse_row line = those (map untoken (split_on (CHR ''|'') line))"

definition parse_board :: "string \<Rightarrow> board option" where
  "parse_board s =
     (if s = [] then Some [] else those (map parse_row (split_on (CHR 0x0A) s)))"


section \<open>Properties of the rules\<close>

subsection \<open>Empty cells and valid moves\<close>

lemma empty_cells_iff:
  "(x, y) \<in> set (empty_cells b) \<longleftrightarrow>
     0 \<le> x \<and> x < int (length b) \<and> 0 \<le> y \<and> y < int (length (b ! nat x))
     \<and> b ! nat x ! nat y = EMPTY"
proof
  assume "(x, y) \<in> set (empty_cells b)"
  then obtain i j where
    "i < length b" "j < length (b ! i)" "b ! i ! j = 0" "x = int i" "y = int j"
    unfolding empty_cells_def by auto
  then show "0 \<le> x \<and> x < int (length b) \<and> 0 \<le> y \<and> y < int (length (b ! nat x))
     \<and> b ! nat x ! nat y = EMPTY"
    by simp
next
  assume "0 \<le> x \<and> x < int (length b) \<and> 0 \<le> y \<and> y < int (length (b ! nat x))
     \<and> b ! nat x ! nat y = EMPTY"
  then have "nat x < length b" "nat y < length (b ! nat x)" "b ! nat x ! nat y = 0"
    "x = int (nat x)" "y = int (nat y)"
    by auto
  then show "(x, y) \<in> set (empty_cells b)"
    unfolding empty_cells_def by force
qed

text \<open>
  Claim C3. For every board and every pair of integers, \<open>valid_move\<close> answers whether the
  pair is among \<open>empty_cells\<close>, and that is the case exactly when both coordinates are
  within the board and the cell there is EMPTY. A coordinate outside the board (negative
  ones included) is thus rejected; \<open>valid_move\<close> never indexes the board with the move, so
  it has no error to raise.
\<close>

theorem valid_move_iff_empty_cell:
  "valid_move b (x, y) = ((x, y) \<in> set (empty_cells b))
   \<and> valid_move b (x, y) =
       (0 \<le> x \<and> x < int (length b) \<and> 0 \<le> y \<and> y < int (length (b ! nat x))
        \<and> b ! nat x ! nat y = EMPTY)"
  by (simp add: valid_move_def empty_cells_iff)

subsection \<open>Complete lines\<close>

lemma sum_cells_le: "list_all cell_ok xs \<Longrightarrow> abs (sum_list xs) \<le> int (length xs)"
  by (induction xs) (auto simp: cell_ok_def)

lemma sum_cells_pos:
  "list_all cell_ok xs \<Longrightarrow>
   sum_list xs = int (length xs) \<longleftrightarrow> list_all (\<lambda>v. v = NOUGHT) xs"
proof (induction xs)
  case Nil
  then show ?case by simp
next
  case (Cons a xs)
  then have "abs (sum_list xs) \<le> int (length xs)" by (simp add: sum_cells_le)
  with Cons show ?case by (auto simp: cell_ok_def)
qed

lemma sum_cells_neg:
  "list_all cell_ok xs \<Longrightarrow>
   sum_list xs = - int (length xs) \<longleftrightarrow> list_all (\<lambda>v. v = CROSS) xs"
proof (induction xs)
  case Nil
  then show ?case by simp
next
  case (Cons a xs)
  then have "abs (sum_list xs) \<le> int (length xs)" by (simp add: sum_cells_le)
  with Cons show ?case by (auto simp: cell_ok_def)
qed

lemma complete_line_iff:
  assumes "list_all cell_ok xs"
  shows "abs (sum_list xs) = int (length xs) \<longleftrightarrow>
         (list_all (\<lambda>v. v = NOUGHT) xs \<or> list_all (\<lambda>v. v = CROSS) xs)"
proof -
  have "abs (sum_list xs) = int (length xs) \<longleftrightarrow>
        sum_list xs = int (length xs) \<or> sum_list xs = - int (length xs)"
    by linarith
  then show ?thesis using assms by (simp add: sum_cells_pos sum_cells_neg)
qed

lemma square_row: "square n b \<Longrightarrow> i < n \<Longrightarrow> length (b ! i) = n"
  by (auto simp: square_def list_all_length)

lemma square_ncols: "square n b \<Longrightarrow> 0 < n \<Longrightarrow> ncols b = n"
  by (cases b) (auto simp: square_def ncols_def)

lemma cells_ok_nth:
  "cells_ok b \<Longrightarrow> i < length b \<Longrightarrow> j < length (b ! i) \<Longrightarrow> cell_ok (b ! i ! j)"
  by (simp add: cells_ok_def list_all_length)

lemma line_of_cells:
  assumes "length xs = n" "\<And>i. i < n \<Longrightarrow> cell_ok (xs ! i)"
  shows "abs (sum_list xs) = int n \<longleftrightarrow>
         ((\<forall>i<n. xs ! i = NOUGHT) \<or> (\<forall>i<n. xs ! i = CROSS))"
proof -
  have "list_all cell_ok xs" using assms by (simp add: list_all_length)
  from complete_line_iff[OF this] show ?thesis
    by (simp add: assms(1) list_all_length)
qed

lemma row_line:
  assumes "square n b" "cells_ok b" "i < n"
  shows "abs (sum_list (b ! i)) = int n \<longleftrightarrow>
         ((\<forall>j<n. b ! i ! j = NOUGHT) \<or> (\<forall>j<n. b ! i ! j = CROSS))"
proof (rule line_of_cells)
  show "length (b ! i) = n" using assms by (simp add: square_row)
next
  fix j assume "j < n"
  then show "cell_ok (b ! i ! j)"
    using assms square_row[OF assms(1) assms(3)] cells_ok_nth[OF assms(2), of i j]
    by (simp add: square_def)
qed

lemma column_line:
  assumes "square n b" "cells_ok b" "j < n"
  shows "abs (sum_list (column b j)) = int n \<longleftrightarrow>
         ((\<forall>i<n. b ! i ! j = NOUGHT) \<or> (\<forall>i<n. b ! i ! j = CROSS))"
proof -
  have lb: "length b = n" using assms(1) by (simp add: square_def)
  have nth: "\<And>i. i < n \<Longrightarrow> column b j ! i = b ! i ! j" by (simp add: column_def lb)
  have "abs (sum_list (column b j)) = int n \<longleftrightarrow>
         ((\<forall>i<n. column b j ! i = NOUGHT) \<or> (\<forall>i<n. column b j ! i = CROSS))"
  proof (rule line_of_cells)
    show "length (column b j) = n" by (simp add: column_def lb)
  next
    fix i assume i: "i < n"
    then show "cell_ok (column b j ! i)"
      using assms(3) square_row[OF assms(1) i] cells_ok_nth[OF assms(2), of i j]
      by (simp add: nth lb)
  qed
  then show ?thesis by (simp add: nth)
qed

lemma diagonal_line:
  assumes "square n b" "cells_ok b" "0 < n"
  shows "abs (sum_list (diagonal b)) = int n \<longleftrightarrow>
         ((\<forall>i<n. b ! i ! i = NOUGHT) \<or> (\<forall>i<n. b ! i ! i = CROSS))"
proof -
  have lb: "length b = n" using assms(1) by (simp add: square_def)
  have d: "diagonal b = map (\<lambda>i. b ! i ! i) [0..<n]"
    by (simp add: diagonal_def square_ncols[OF assms(1,3)] lb)
  have nth: "\<And>i. i < n \<Longrightarrow> diagonal b ! i = b ! i ! i" by (simp add: d)
  have "abs (sum_list (diagonal b)) = int n \<longleftrightarrow>
         ((\<forall>i<n. diagonal b ! i = NOUGHT) \<or> (\<forall>i<n. diagonal b ! i = CROSS))"
  proof (rule line_of_cells)
    show "length (diagonal b) = n" by (simp add: d)
  next
    fix i assume i: "i < n"
    then show "cell_ok (diagonal b ! i)"
      using square_row[OF assms(1) i] cells_ok_nth[OF assms(2), of i i]
      by (simp add: nth lb)
  qed
  then show ?thesis by (simp add: nth)
qed

lemma square_fliplr: "square n b \<Longrightarrow> square n (fliplr b)"
  by (simp add: square_def fliplr_def list_all_length)

lemma cells_ok_fliplr: "cells_ok b \<Longrightarrow> cells_ok (fliplr b)"
  by (induction b) (simp_all add: cells_ok_def fliplr_def list_all_iff)

lemma fliplr_nth:
  "square n b \<Longrightarrow> i < n \<Longrightarrow> j < n \<Longrightarrow> fliplr b ! i ! j = b ! i ! (n - 1 - j)"
  by (simp add: fliplr_def square_def list_all_length rev_nth)

lemma antidiagonal_line:
  assumes "square n b" "cells_ok b" "0 < n"
  shows "abs (sum_list (diagonal (fliplr b))) = int n \<longleftrightarrow>
         ((\<forall>i<n. b ! i ! (n - 1 - i) = NOUGHT) \<or> (\<forall>i<n. b ! i ! (n - 1 - i) = CROSS))"
proof -
  have nth: "\<And>i. i < n \<Longrightarrow> fliplr b ! i ! i = b ! i ! (n - 1 - i)"
    using fliplr_nth[OF assms(1)] by simp
  show ?thesis
    using diagonal_line[OF square_fliplr[OF assms(1)] cells_ok_fliplr[OF assms(2)] assms(3)]
    by (simp add: nth)
qed

lemma winning_move_in_bounds:
  assumes "square n b" "0 \<le> x" "x < int n" "0 \<le> y" "y < int n"
  shows "winning_move b (x, y) =
           Inr (abs (sum_list (b ! nat x)) = int n
                \<or> abs (sum_list (column b (nat y))) = int n
                \<or> (x = y \<and> abs (sum_list (diagonal b)) = int n)
                \<or> (x = int n - 1 - y \<and> abs (sum_list (diagonal (fliplr b))) = int n))"
proof -
  have "0 < n" using assms by linarith
  then have nc: "ncols b = n" using assms by (simp add: square_ncols)
  have len: "length b = n" using assms by (simp add: square_def)
  have ax: "axis_index n x = Inr (nat x)" "axis_index n y = Inr (nat y)"
    using assms by (simp_all add: axis_index_def)
  show ?thesis
    by (simp add: winning_move_def nc len Let_def ax)
qed

lemma ex_side: "(\<exists>s. (s = NOUGHT \<or> s = CROSS) \<and> P s) = (P NOUGHT \<or> P CROSS)"
  by blast

text \<open>
  Claim C1. On an n by n board whose cells are 0, 1 or -1 and for a move within the
  board, \<open>winning_move\<close> returns (it does not raise) and its answer is true exactly when
  the row of the move, its column, the main diagonal (when \<open>x = y\<close>) or the anti-diagonal
  (when \<open>x = (n - 1) - y\<close>) has a sum of absolute value n; and that is the case exactly
  when one of these lines holds n times the same side. So without such a line through
  the move the answer is false.
\<close>

theorem winning_move_complete_line:
  assumes "square n b" "cells_ok b" "0 \<le> x" "x < int n" "0 \<le> y" "y < int n"
  shows "winning_move b (x, y) =
           Inr (abs (sum_list (b ! nat x)) = int n
                \<or> abs (sum_list (column b (nat y))) = int n
                \<or> (x = y \<and> abs (sum_list (diagonal b)) = int n)
                \<or> (x = int n - 1 - y \<and> abs (sum_list (diagonal (fliplr b))) = int n))
         \<and> winning_move b (x, y) =
           Inr ((\<exists>s. (s = NOUGHT \<or> s = CROSS) \<and> (\<forall>j<n. b ! nat x ! j = s))
                \<or> (\<exists>s. (s = NOUGHT \<or> s = CROSS) \<and> (\<forall>i<n. b ! i ! nat y = s))
                \<or> (x = y \<and> (\<exists>s. (s = NOUGHT \<or> s = CROSS) \<and> (\<forall>i<n. b ! i ! i = s)))
                \<or> (x = int n - 1 - y
                    \<and> (\<exists>s. (s = NOUGHT \<or> s = CROSS) \<and> (\<forall>i<n. b ! i ! (n - 1 - i) = s))))"
proof -
  have n: "0 < n" "nat x < n" "nat y < n" using assms by linarith+
  note r = row_line[OF assms(1,2) n(2)]
  note c = column_line[OF assms(1,2) n(3)]
  note d = diagonal_line[OF assms(1,2) n(1)]
  note a = antidiagonal_line[OF assms(1,2) n(1)]
  show ?thesis
    unfolding winning_move_in_bounds[OF assms(1,3,4,5,6)] ex_side r c d a by simp
qed

theorem winning_move_complete_line_witness:
  "square 3 [[1, -1, 0], [-1, 1, 0], [0, 0, 1]] \<and> cells_ok [[1, -1, 0], [-1, 1, 0], [0, 0, 1]]
   \<and> winning_move [[1, -1, 0], [-1, 1, 0], [0, 0, 1]] (2, 2) = Inr True
   \<and> winning_move [[1, -1, 0], [-1, 1, 0], [0, 0, 1]] (1, 0) = Inr False"
  using winning_move_complete_line[of 3 "[[1, -1, 0], [-1, 1, 0], [0, 0, 1]]" 2 2]
        winning_move_complete_line[of 3 "[[1, -1, 0], [-1, 1, 0], [0, 0, 1]]" 1 0]
  by (simp add: square_def cells_ok_def cell_ok_def diagonal_def ncols_def fliplr_def column_def)

subsection \<open>Rendering and reading back\<close>


lemma split_on_no_sep: "c \<notin> set p \<Longrightarrow> split_on c p = [p]"
  by (induction p) auto

lemma split_on_append: "c \<notin> set p \<Longrightarrow> split_on c (p @ c # rest) = p # split_on c rest"
  by (induction p) (auto split: list.splits)

lemma split_on_join:
  "ps \<noteq> [] \<Longrightarrow> (\<forall>p \<in> set ps. c \<notin> set p) \<Longrightarrow> split_on c (join [c] ps) = ps"
proof (induction "[c]" ps rule: join.induct)
  case 1 then show ?case by simp
next
  case (2 p) then show ?case by (simp add: split_on_no_sep)
next
  case (3 p q ps)
  then show ?case by (simp add: split_on_append)
qed

lemma untoken_token: "cell_ok v \<Longrightarrow> untoken (token v) = Some v"
  by (auto simp: cell_ok_def token_def tokens_def untoken_def)

lemma those_map_Some: "(\<And>x. x \<in> set xs \<Longrightarrow> f x = Some (g x)) \<Longrightarrow> those (map f xs) = Some (map g xs)"
  by (induction xs) auto

lemma set_join: "set (join sep ps) \<subseteq> set sep \<union> \<Union> (set ` set ps)"
  by (induction sep ps rule: join.induct) auto

lemma join_nonempty: "ps \<noteq> [] \<Longrightarrow> hd ps \<noteq> [] \<Longrightarrow> join sep ps \<noteq> []"
  by (induction sep ps rule: join.induct) auto

lemma token_chars: "cell_ok v \<Longrightarrow> set (token v) \<subseteq> {CHR '' '', CHR ''o'', CHR ''x''}"
  by (auto simp: cell_ok_def token_def tokens_def)

lemma token_nonempty: "token v \<noteq> []"
  by (simp add: token_def tokens_def)

lemma render_row_chars:
  assumes "list_all cell_ok r"
  shows "set (join ''|'' (map token r)) \<subseteq> {CHR ''|'', CHR '' '', CHR ''o'', CHR ''x''}"
proof -
  have "\<Union> (set ` set (map token r)) \<subseteq> {CHR '' '', CHR ''o'', CHR ''x''}"
    using assms token_chars by (fastforce simp: list_all_iff)
  with set_join[of "''|''" "map token r"] show ?thesis by auto
qed

lemma parse_row_render:
  assumes "r \<noteq> []" "list_all cell_ok r"
  shows "parse_row (join ''|'' (map token r)) = Some r"
proof -
  have "\<forall>p \<in> set (map token r). CHR ''|'' \<notin> set p"
    using assms(2) token_chars by (fastforce simp: list_all_iff)
  then have "split_on (CHR ''|'') (join ''|'' (map token r)) = map token r"
    using assms(1) split_on_join[of "map token r" "CHR ''|''"] by simp
  moreover have "those (map (\<lambda>v. untoken (token v)) r) = Some (map (\<lambda>v. v) r)"
    using assms(2) by (intro those_map_Some) (simp add: list_all_iff untoken_token)
  ultimately show ?thesis by (simp add: parse_row_def comp_def)
qed

lemma parse_board_render:
  assumes "square n b" "cells_ok b"
  shows "parse_board (board_str b) = Some b"
proof (cases "n = 0")
  case True
  then have "b = []" using assms(1) by (simp add: square_def)
  then show ?thesis by (simp add: parse_board_def board_str_def)
next
  case False
  let ?rows = "map (\<lambda>row. join ''|'' (map token row)) b"
  have lb: "length b = n" and rows: "\<And>r. r \<in> set b \<Longrightarrow> length r = n"
    using assms(1) by (simp_all add: square_def list_all_iff)
  have ok: "\<And>r. r \<in> set b \<Longrightarrow> list_all cell_ok r"
    using assms(2) by (simp add: cells_ok_def list_all_iff)
  have ne: "b \<noteq> []" using False lb by auto
  have rne: "\<And>r. r \<in> set b \<Longrightarrow> r \<noteq> []" using rows False by fastforce
  have "hd b \<in> set b" using ne by simp
  then have "hd ?rows \<noteq> []"
    using ne rne[of "hd b"] join_nonempty[of "map token (hd b)" "''|''"] token_nonempty
    by (simp add: hd_map)
  then have s_ne: "board_str b \<noteq> []"
    using ne join_nonempty[of ?rows] by (simp add: board_str_def)
  have "\<forall>p \<in> set ?rows. CHR 0x0A \<notin> set p"
    using render_row_chars ok by fastforce
  then have sp: "split_on (CHR 0x0A) (board_str b) = ?rows"
    using ne split_on_join[of ?rows "CHR 0x0A"] by (simp add: board_str_def)
  have "those (map (\<lambda>r. parse_row (join ''|'' (map token r))) b) = Some (map (\<lambda>r. r) b)"
    by (intro those_map_Some) (simp add: parse_row_render rne ok)
  then show ?thesis
    using s_ne by (simp add: parse_board_def sp comp_def)
qed

text \<open>
  Claim C9. For every n by n board whose cells are 0, 1 or -1, reading the text of
  \<open>board_str\<close> back gives the board again; the three values have three different
  tokens, and each token reads back as its value.
\<close>

theorem board_str_round_trip:
  assumes "square n b" "cells_ok b"
  shows "parse_board (board_str b) = Some b
         \<and> inj_on token {EMPTY, NOUGHT, CROSS}
         \<and> untoken (token EMPTY) = Some EMPTY
         \<and> untoken (token NOUGHT) = Some NOUGHT
         \<and> untoken (token CROSS) = Some CROSS"
  using parse_board_render[OF assms]
  by (simp add: token_def tokens_def untoken_def)

theorem board_str_round_trip_witness:
  "square 2 [[1, 0], [-1, 1]] \<and> cells_ok [[1, 0], [-1, 1]]
   \<and> board_str [[1, 0], [-1, 1]] = ''o| '' @ [CHR 0x0A] @ ''x|o''
   \<and> parse_board (''o| '' @ [CHR 0x0A] @ ''x|o'') = Some [[1, 0], [-1, 1]]"
  using board_str_round_trip[of 2 "[[1, 0], [-1, 1]]"]
  by (simp add: square_def cells_ok_def cell_ok_def board_str_def token_def tokens_def)

section \<open>Properties of the simulation\<close>

subsection \<open>Boards under moves\<close>

lemma valid_move_in_bounds:
  assumes "square n b" "valid_move b (x, y)"
  shows "0 \<le> x \<and> x < int n \<and> 0 \<le> y \<and> y < int n \<and> b ! nat x ! nat y = EMPTY"
proof -
  have v: "0 \<le> x" "x < int (length b)" "0 \<le> y" "y < int (length (b ! nat x))"
    "b ! nat x ! nat y = EMPTY"
    using assms(2) by (simp_all add: valid_move_def empty_cells_iff)
  have lb: "length b = n" using assms(1) by (simp add: square_def)
  have "nat x < n" using v lb by linarith
  then have "length (b ! nat x) = n" using assms(1) by (simp add: square_row)
  then show ?thesis using v lb by simp
qed

lemma list_all_update:
  "list_all P xs \<Longrightarrow> (i < length xs \<Longrightarrow> P v) \<Longrightarrow> list_all P (xs[i := v])"
  by (induction xs arbitrary: i) (auto split: nat.splits)

lemma square_set_cell:
  assumes "square n b"
  shows "square n (set_cell b m s)"
proof -
  have "list_all (\<lambda>r. length r = n) (b[nat (fst m) := (b ! nat (fst m))[nat (snd m) := s]])"
    using assms by (intro list_all_update) (simp_all add: square_def list_all_length)
  then show ?thesis using assms by (simp add: square_def set_cell_def)
qed

lemma cells_ok_set_cell:
  assumes "cells_ok b" "cell_ok s"
  shows "cells_ok (set_cell b m s)"
proof -
  have "list_all (list_all cell_ok) (b[nat (fst m) := (b ! nat (fst m))[nat (snd m) := s]])"
  proof (rule list_all_update)
    show "list_all (list_all cell_ok) b" using assms(1) by (simp add: cells_ok_def)
  next
    assume "nat (fst m) < length b"
    then have "list_all cell_ok (b ! nat (fst m))"
      using assms(1) by (simp add: cells_ok_def list_all_length)
    then show "list_all cell_ok ((b ! nat (fst m))[nat (snd m) := s])"
      using assms(2) by (intro list_all_update) simp_all
  qed
  then show ?thesis by (simp add: cells_ok_def set_cell_def)
qed

lemma square_fill: "square n b \<Longrightarrow> square n (fill b v)"
  by (simp add: square_def fill_def list_all_length)

lemma cells_ok_fill: "cell_ok v \<Longrightarrow> cells_ok (fill b v)"
  by (simp add: cells_ok_def fill_def list_all_length)

lemma winning_move_after_valid:
  assumes "square n b" "valid_move b m"
  shows "\<exists>w. winning_move (set_cell b m s) m = Inr w"
proof -
  obtain x y where m: "m = (x, y)" by (cases m)
  have "0 \<le> x \<and> x < int n \<and> 0 \<le> y \<and> y < int n"
    using valid_move_in_bounds[OF assms(1)] assms(2) m by simp
  then show ?thesis
    using winning_move_in_bounds[OF square_set_cell[OF assms(1)], of x y m s] m by simp
qed

lemma row_empty_indices:
  "length (filter (\<lambda>j. r ! j = EMPTY) [0..<length r]) = length (filter (\<lambda>v. v = EMPTY) r)"
proof -
  have "filter (\<lambda>v. v = EMPTY) (map (nth r) [0..<length r])
        = map (nth r) (filter (\<lambda>j. r ! j = EMPTY) [0..<length r])"
    by (simp add: filter_map comp_def)
  then have "length (filter (\<lambda>v. v = EMPTY) (map (nth r) [0..<length r]))
        = length (filter (\<lambda>j. r ! j = EMPTY) [0..<length r])"
    by simp
  then show ?thesis by (simp add: map_nth)
qed

lemma length_empty_cells: "length (empty_cells b) = count_empty b"
proof -
  have "length (empty_cells b)
        = sum_list (map (\<lambda>i. length (filter (\<lambda>v. v = EMPTY) (b ! i))) [0..<length b])"
    by (simp add: empty_cells_def length_concat comp_def row_empty_indices)
  also have "\<dots> = sum_list (map (\<lambda>r. length (filter (\<lambda>v. v = EMPTY) r)) (map (nth b) [0..<length b]))"
    by (simp add: comp_def)
  finally show ?thesis by (simp add: map_nth count_empty_def)
qed

lemma board_full_iff: "board_full b \<longleftrightarrow> count_empty b = 0"
  by (induction b) (auto simp: board_full_def count_empty_def filter_empty_conv)

lemma row_update_count:
  "j < length r \<Longrightarrow> r ! j = EMPTY \<Longrightarrow> s \<noteq> EMPTY \<Longrightarrow>
   length (filter (\<lambda>v. v = EMPTY) (r[j := s])) + 1 = length (filter (\<lambda>v. v = EMPTY) r)"
  by (induction r arbitrary: j) (auto split: nat.splits)

lemma sum_list_map_update:
  fixes f :: "'a \<Rightarrow> nat"
  shows "i < length xs \<Longrightarrow> f v + 1 = f (xs ! i) \<Longrightarrow>
         sum_list (map f (xs[i := v])) + 1 = sum_list (map f xs)"
  by (induction xs arbitrary: i) (auto split: nat.splits)

lemma count_empty_set_cell:
  assumes "valid_move b m" "s \<noteq> EMPTY"
  shows "count_empty (set_cell b m s) + 1 = count_empty b"
proof -
  obtain x y where m: "m = (x, y)" by (cases m)
  have v: "nat x < length b" "nat y < length (b ! nat x)" "b ! nat x ! nat y = EMPTY"
    using assms(1) m by (auto simp: valid_move_def empty_cells_iff)
  show ?thesis
    unfolding count_empty_def set_cell_def m fst_conv snd_conv
    by (rule sum_list_map_update[OF v(1)]) (rule row_update_count[OF v(2,3) assms(2)])
qed

lemma sum_list_bounded:
  fixes f :: "'a \<Rightarrow> nat"
  shows "(\<And>x. x \<in> set xs \<Longrightarrow> f x \<le> c) \<Longrightarrow> sum_list (map f xs) \<le> length xs * c"
  by (induction xs) (auto simp: add_mono)

lemma count_empty_le:
  assumes "square n b"
  shows "count_empty b \<le> n * n"
proof -
  have "\<And>r. r \<in> set b \<Longrightarrow> length (filter (\<lambda>v. v = EMPTY) r) \<le> n"
  proof -
    fix r assume "r \<in> set b"
    then have "length r = n" using assms by (simp add: square_def list_all_iff)
    then show "length (filter (\<lambda>v. v = EMPTY) r) \<le> n"
      using length_filter_le[of "\<lambda>v. v = EMPTY" r] by simp
  qed
  from sum_list_bounded[of b "\<lambda>r. length (filter (\<lambda>v. v = EMPTY) r)" n, OF this]
  show ?thesis using assms by (simp add: count_empty_def square_def)
qed

subsection \<open>One turn\<close>

lemma turn_invalid:
  "\<not> valid_move (board g) (st p (calls g) (board g)) \<Longrightarrow>
   turn st p g = (Some (Inl (ValueError_move (st p (calls g) (board g)))),
                  g\<lparr>calls := calls g @ [Move p (board g)]\<rparr>)"
  by (simp add: turn_def Let_def)

lemma turn_frame:
  "turn st p g = (r, g') \<Longrightarrow>
   side g' = side g \<and> players g' = players g \<and> shuffle g' = shuffle g
   \<and> calls g' = calls g @ [Move p (board g)]"
  by (auto simp: turn_def Let_def split: if_splits sum.splits bool.splits)

lemma turn_board:
  "turn st p g = (r, g') \<Longrightarrow>
   board g' = (if valid_move (board g) (st p (calls g) (board g))
               then set_cell (board g) (st p (calls g) (board g)) (side g p)
               else board g)"
  by (auto simp: turn_def Let_def split: if_splits sum.splits bool.splits)

lemma turn_result:
  assumes "square n (board g)" "turn st p g = (r, g')"
  shows "(\<not> valid_move (board g) (st p (calls g) (board g))
            \<and> r = Some (Inl (ValueError_move (st p (calls g) (board g)))))
         \<or> (valid_move (board g) (st p (calls g) (board g))
            \<and> (r = Some (Inr (Some (side g p)))
               \<or> (r = Some (Inr None) \<and> board_full (board g'))
               \<or> (r = None \<and> \<not> board_full (board g'))))"
proof (cases "valid_move (board g) (st p (calls g) (board g))")
  case False
  then show ?thesis using assms(2) by (simp add: turn_invalid)
next
  case True
  obtain w where
    "winning_move (set_cell (board g) (st p (calls g) (board g)) (side g p))
       (st p (calls g) (board g)) = Inr w"
    using winning_move_after_valid[OF assms(1) True] by blast
  then show ?thesis
    using True assms(2) by (cases w) (auto simp: turn_def Let_def split: if_splits)
qed

subsection \<open>The loop\<close>

lemma play_loop_frame:
  "play_loop k st cyc i g = (r, g') \<Longrightarrow>
   side g' = side g \<and> players g' = players g \<and> shuffle g' = shuffle g
   \<and> (\<exists>ev. calls g' = calls g @ ev \<and> list_all is_Move ev \<and> length ev \<le> k)"
proof (induction k arbitrary: i g)
  case 0
  then show ?case by simp
next
  case (Suc k)
  obtain r1 g1 where t: "turn st (cyc ! (i mod length cyc)) g = (r1, g1)"
    by (cases "turn st (cyc ! (i mod length cyc)) g")
  note f = turn_frame[OF t]
  show ?case
  proof (cases r1)
    case None
    then have "play_loop k st cyc (Suc i) g1 = (r, g')"
      using Suc.prems t by simp
    from Suc.IH[OF this] obtain ev where
      "side g' = side g1" "players g' = players g1" "shuffle g' = shuffle g1"
      "calls g' = calls g1 @ ev" "list_all is_Move ev" "length ev \<le> k"
      by blast
    then have "side g' = side g \<and> players g' = players g \<and> shuffle g' = shuffle g
      \<and> calls g' = calls g @ (Move (cyc ! (i mod length cyc)) (board g) # ev)
      \<and> list_all is_Move (Move (cyc ! (i mod length cyc)) (board g) # ev)
      \<and> length (Move (cyc ! (i mod length cyc)) (board g) # ev) \<le> Suc k"
      using f by simp
    then show ?thesis by blast
  next
    case (Some a)
    then have "g' = g1" using Suc.prems t by simp
    then have "side g' = side g \<and> players g' = players g \<and> shuffle g' = shuffle g
      \<and> calls g' = calls g @ [Move (cyc ! (i mod length cyc)) (board g)]
      \<and> list_all is_Move [Move (cyc ! (i mod length cyc)) (board g)]
      \<and> length [Move (cyc ! (i mod length cyc)) (board g)] \<le> Suc k"
      using f by simp
    then show ?thesis by blast
  qed
qed

lemma turn_board_ok:
  assumes "square n (board g)" "cells_ok (board g)" "side_ok (side g p)"
    "turn st p g = (r, g')"
  shows "square n (board g') \<and> cells_ok (board g')"
proof -
  have "cell_ok (side g p)" using assms(3) by (auto simp: side_ok_def sides_def cell_ok_def)
  then show ?thesis
    using assms(1,2) turn_board[OF assms(4)]
    by (simp add: square_set_cell cells_ok_set_cell)
qed

lemma cycle_member: "cyc \<noteq> [] \<Longrightarrow> cyc ! (i mod length cyc) \<in> set cyc"
  by simp

lemma play_loop_board_ok:
  assumes "cyc \<noteq> []" "list_all (\<lambda>p. side_ok (side g p)) cyc"
  shows "square n (board g) \<Longrightarrow> cells_ok (board g) \<Longrightarrow> play_loop k st cyc i g = (r, g') \<Longrightarrow>
         square n (board g') \<and> cells_ok (board g')"
  using assms(2)
proof (induction k arbitrary: i g)
  case 0
  then show ?case by simp
next
  case (Suc k)
  obtain r1 g1 where t: "turn st (cyc ! (i mod length cyc)) g = (r1, g1)"
    by (cases "turn st (cyc ! (i mod length cyc)) g")
  have "side_ok (side g (cyc ! (i mod length cyc)))"
    using Suc.prems(4) cycle_member[OF assms(1), of i] by (simp add: list_all_iff)
  note ok = turn_board_ok[OF Suc.prems(1,2) this t]
  show ?case
  proof (cases r1)
    case None
    then have p: "play_loop k st cyc (Suc i) g1 = (r, g')"
      using Suc.prems(3) t by simp
    have "list_all (\<lambda>p. side_ok (side g1 p)) cyc"
      using Suc.prems(4) turn_frame[OF t] by simp
    with Suc.IH[OF _ _ p] ok show ?thesis by simp
  next
    case (Some a)
    then have "g' = g1" using Suc.prems(3) t by simp
    with ok show ?thesis by simp
  qed
qed

lemma play_loop_more_fuel:
  "play_loop k st cyc i g = (Some r, g') \<Longrightarrow> play_loop (k + j) st cyc i g = (Some r, g')"
proof (induction k arbitrary: i g)
  case 0
  then show ?case by simp
next
  case (Suc k)
  obtain r1 g1 where t: "turn st (cyc ! (i mod length cyc)) g = (r1, g1)"
    by (cases "turn st (cyc ! (i mod length cyc)) g")
  show ?case
  proof (cases r1)
    case None
    then have "play_loop k st cyc (Suc i) g1 = (Some r, g')"
      using Suc.prems t by simp
    from Suc.IH[OF this] show ?thesis using t None by simp
  next
    case (Some a)
    then show ?thesis using Suc.prems t by simp
  qed
qed

lemma requests_append_Move: "requests (tr @ [Move p b]) = requests tr + 1"
  by (simp add: requests_def)

lemma side_ok_nonzero: "side_ok s \<Longrightarrow> s \<noteq> EMPTY"
  by (auto simp: side_ok_def sides_def)

lemma play_loop_terminates:
  assumes "cyc \<noteq> []"
  shows "list_all (\<lambda>p. side_ok (side g p)) cyc \<Longrightarrow> square n (board g) \<Longrightarrow>
         count_empty (board g) \<le> k \<Longrightarrow> 0 < k \<Longrightarrow>
         \<exists>r g'. play_loop k st cyc i g = (Some r, g')
            \<and> requests (calls g') \<le> requests (calls g) + max 1 (count_empty (board g))
            \<and> ((\<exists>s. r = Inr (Some s) \<and> side_ok s) \<or> r = Inr None
                \<or> (\<exists>m. r = Inl (ValueError_move m)))"
proof (induction k arbitrary: i g)
  case 0
  then show ?case by simp
next
  case (Suc k)
  let ?p = "cyc ! (i mod length cyc)"
  obtain r1 g1 where t: "turn st ?p g = (r1, g1)"
    by (cases "turn st ?p g")
  have sp: "side_ok (side g ?p)"
    using Suc.prems(1) cycle_member[OF assms, of i] by (simp add: list_all_iff)
  note f = turn_frame[OF t]
  have rq: "requests (calls g1) = requests (calls g) + 1"
    using f by (simp add: requests_append_Move)
  from turn_result[OF Suc.prems(2) t]
  consider (bad) "r1 = Some (Inl (ValueError_move (st ?p (calls g) (board g))))"
    | (win) "r1 = Some (Inr (Some (side g ?p)))"
    | (draw) "r1 = Some (Inr None)"
    | (go) "valid_move (board g) (st ?p (calls g) (board g))" "r1 = None"
           "\<not> board_full (board g1)"
    by blast
  then show ?case
  proof cases
    case bad
    then show ?thesis using t rq by simp
  next
    case win
    then show ?thesis using t rq sp by simp
  next
    case draw
    then show ?thesis using t rq by simp
  next
    case go
    have b1: "board g1 = set_cell (board g) (st ?p (calls g) (board g)) (side g ?p)"
      using turn_board[OF t] go(1) by simp
    have ce: "count_empty (board g1) + 1 = count_empty (board g)"
      unfolding b1 by (rule count_empty_set_cell[OF go(1) side_ok_nonzero[OF sp]])
    have pos: "0 < count_empty (board g1)"
      using go(3) by (simp add: board_full_iff)
    have sq: "square n (board g1)" unfolding b1 by (rule square_set_cell[OF Suc.prems(2)])
    have sd: "list_all (\<lambda>p. side_ok (side g1 p)) cyc" using Suc.prems(1) f by simp
    have k: "count_empty (board g1) \<le> k" "0 < k" using ce pos Suc.prems(3) by linarith+
    from Suc.IH[OF sd sq k, of "Suc i"] obtain r g' where
      h: "play_loop k st cyc (Suc i) g1 = (Some r, g')"
         "requests (calls g') \<le> requests (calls g1) + max 1 (count_empty (board g1))"
         "(\<exists>s. r = Inr (Some s) \<and> side_ok s) \<or> r = Inr None
                \<or> (\<exists>m. r = Inl (ValueError_move m))"
      by blast
    have "play_loop (Suc k) st cyc i g = (Some r, g')"
      using t go(2) h(1) by simp
    moreover have "requests (calls g') \<le> requests (calls g) + max 1 (count_empty (board g))"
      using h(2) rq ce pos by linarith
    ultimately show ?thesis using h(3) by blast
  qed
qed


subsection \<open>Termination of play\<close>

lemma init_example: "init [0, 1] n sh (\<lambda>_. EMPTY) = Inr (example_game n sh)"
  by (simp add: init_def set_players_def sides_def example_game_def)

lemma shuffled_players:
  assumes "mset qs = mset ps"
  shows "length qs = length ps" "set qs = set ps"
  using assms mset_eq_length mset_eq_setD by blast+

lemma play_unfold:
  "play k st rnd g =
     (if (if shuffle g then rnd (players g) else players g) = []
      then (Some (Inr None), g\<lparr>players := if shuffle g then rnd (players g) else players g\<rparr>)
      else play_loop k st (if shuffle g then rnd (players g) else players g) 0
             (g\<lparr>players := if shuffle g then rnd (players g) else players g\<rparr>))"
  by (simp add: play_def Let_def)

lemma play_more_fuel:
  "play k st rnd g = (Some r, g') \<Longrightarrow> play (k + j) st rnd g = (Some r, g')"
  unfolding play_unfold by (auto simp: play_loop_more_fuel split: if_splits)

text \<open>
  Claim C8, amended. On an n by n board with n at least 1 and for any answers of the
  players, \<open>play\<close> returns: fuel n * n is enough, and more fuel gives the same result. It
  makes at most n * n requests for a move. The result is a side (a win), Python's
  \<open>None\<close> (a draw) or the ValueError of a rejected move. Every pass of the loop that
  applies a move leaves exactly one EMPTY cell fewer on the board, as writing a side into
  an empty cell does, which is why the loop ends.
\<close>

theorem play_terminates:
  assumes "wf_game n g" "0 < n" "mset (rnd (players g)) = mset (players g)"
  shows "(\<exists>r g'. (\<forall>k. n * n \<le> k \<longrightarrow> play k st rnd g = (Some r, g'))
            \<and> requests (calls g') \<le> requests (calls g) + n * n
            \<and> ((\<exists>s. r = Inr (Some s) \<and> side_ok s) \<or> r = Inr None
                \<or> (\<exists>m. r = Inl (ValueError_move m))))
         \<and> (\<forall>m s. valid_move (board g) m \<and> side_ok s \<longrightarrow>
               length (empty_cells (set_cell (board g) m s)) + 1
                 = length (empty_cells (board g)))
         \<and> (\<forall>p. p \<in> set (players g) \<and> valid_move (board g) (st p (calls g) (board g))
               \<longrightarrow> length (empty_cells (board (snd (turn st p g)))) + 1
                     = length (empty_cells (board g)))"
proof -
  let ?ps = "if shuffle g then rnd (players g) else players g"
  let ?g = "g\<lparr>players := ?ps\<rparr>"
  have len: "length ?ps = length (players g)" and st: "set ?ps = set (players g)"
    using shuffled_players[OF assms(3)] by simp_all
  have ne: "?ps \<noteq> []" using assms(1) len by (auto simp: wf_game_def sides_def)
  have sd: "list_all (\<lambda>p. side_ok (side ?g p)) ?ps"
    using assms(1) st by (simp add: wf_game_def list_all_iff)
  have sq: "square n (board ?g)" using assms(1) by (simp add: wf_game_def)
  have ce: "count_empty (board ?g) \<le> n * n" using count_empty_le[OF sq] .
  have nn: "0 < n * n" using assms(2) by simp
  from play_loop_terminates[OF ne sd sq ce nn, of st 0] obtain r g' where
    h: "play_loop (n * n) st ?ps 0 ?g = (Some r, g')"
       "requests (calls g') \<le> requests (calls ?g) + max 1 (count_empty (board ?g))"
       "(\<exists>s. r = Inr (Some s) \<and> side_ok s) \<or> r = Inr None
                \<or> (\<exists>m. r = Inl (ValueError_move m))"
    by blast
  have p: "play (n * n) st rnd g = (Some r, g')"
    using h(1) ne unfolding play_unfold by simp
  have "\<forall>k. n * n \<le> k \<longrightarrow> play k st rnd g = (Some r, g')"
  proof (intro allI impI)
    fix k assume "n * n \<le> k"
    then have "k = n * n + (k - n * n)" by simp
    then show "play k st rnd g = (Some r, g')"
      using play_more_fuel[OF p, of "k - n * n"] by simp
  qed
  moreover have "requests (calls g') \<le> requests (calls g) + n * n"
  proof -
    have h2: "requests (calls g') \<le> requests (calls g) + max 1 (count_empty (board g))"
      using h(2) by simp
    have ce': "count_empty (board g) \<le> n * n" using ce by simp
    show ?thesis using h2 ce' nn by linarith
  qed
  moreover have "\<forall>m s. valid_move (board g) m \<and> side_ok s \<longrightarrow>
               length (empty_cells (set_cell (board g) m s)) + 1
                 = length (empty_cells (board g))"
    using count_empty_set_cell side_ok_nonzero by (auto simp: length_empty_cells)
  moreover have "\<forall>p. p \<in> set (players g) \<and> valid_move (board g) (st p (calls g) (board g))
               \<longrightarrow> length (empty_cells (board (snd (turn st p g)))) + 1
                     = length (empty_cells (board g))"
  proof (intro allI impI)
    fix p
    assume a: "p \<in> set (players g) \<and> valid_move (board g) (st p (calls g) (board g))"
    then have so: "side_ok (side g p)"
      using assms(1) by (simp add: wf_game_def list_all_iff)
    have "turn st p g = (fst (turn st p g), snd (turn st p g))" by simp
    from turn_board[OF this] a
    have "board (snd (turn st p g)) = set_cell (board g) (st p (calls g) (board g)) (side g p)"
      by simp
    then show "length (empty_cells (board (snd (turn st p g)))) + 1
                     = length (empty_cells (board g))"
      using count_empty_set_cell[of "board g" "st p (calls g) (board g)" "side g p"] a
        side_ok_nonzero[OF so]
      by (simp add: length_empty_cells)
  qed
  ultimately show ?thesis using h(3) by blast
qed

lemma valid_move_cell:
  "valid_move b (x, y) =
     (0 \<le> x \<and> x < int (length b) \<and> 0 \<le> y \<and> y < int (length (b ! nat x))
      \<and> b ! nat x ! nat y = EMPTY)"
  by (simp add: valid_move_def empty_cells_iff)

lemmas game_eval =
  play_def run_def turn_def Let_def example_game_def always_def scripted_def
  valid_move_cell length_empty_cells count_empty_def
  winning_move_def axis_index_def ncols_def column_def
  diagonal_def fliplr_def board_full_def set_cell_def fill_def requests_def
  wf_game_def square_def cells_ok_def cell_ok_def side_ok_def sides_def

text \<open>
  The constructor accepts size 0. On the board without cells no answer is an empty cell:
  with no fuel, which is n * n, \<open>play\<close> has not returned, and its first pass makes one
  request, more than n * n, and raises.
\<close>

theorem play_empty_board_counterexample:
  "init [0, 1] 0 False (\<lambda>_. EMPTY) = Inr (example_game 0 False)
   \<and> wf_game 0 (example_game 0 False)
   \<and> fst (play (0 * 0) (always (0, 0)) id (example_game 0 False)) = None
   \<and> fst (play 1 (always (0, 0)) id (example_game 0 False))
       = Some (Inl (ValueError_move (0, 0)))
   \<and> requests (calls (snd (play 1 (always (0, 0)) id (example_game 0 False)))) = 1"
proof -
  have "wf_game 0 (example_game 0 False)"
    "fst (play (0 * 0) (always (0, 0)) id (example_game 0 False)) = None"
    "fst (play 1 (always (0, 0)) id (example_game 0 False))
       = Some (Inl (ValueError_move (0, 0)))"
    "requests (calls (snd (play 1 (always (0, 0)) id (example_game 0 False)))) = 1"
    by (simp_all add: game_eval)
  then show ?thesis by (intro conjI init_example)
qed

subsection \<open>Running a fixed sequence of moves\<close>

lemmas rules_eval =
  valid_move_cell winning_move_def axis_index_def ncols_def column_def
  diagonal_def fliplr_def board_full_def set_cell_def

lemmas turn_eval = turn_def Let_def rules_eval scripted_def diagonal_script_def numeral_nat

lemma play_loop_next:
  "cyc ! (i mod length cyc) = p \<Longrightarrow> turn st p g = (None, g1) \<Longrightarrow>
   play_loop (Suc k) st cyc i g = play_loop k st cyc (Suc i) g1"
  by simp

lemma play_loop_last:
  "cyc ! (i mod length cyc) = p \<Longrightarrow> turn st p g = (Some r, g1) \<Longrightarrow>
   play_loop (Suc k) st cyc i g = (Some r, g1)"
  by simp

lemma diagonal_scenario:
  assumes "a \<noteq> b"
  shows "play_loop (5 + j) (scripted (diagonal_script a b)) [a, b] 0
           \<lparr>board = [[0, 0, 0], [0, 0, 0], [0, 0, 0]], players = [a, b], shuffle = False,
            side = sd(a := CROSS, b := NOUGHT), calls = [Start a, Start b]\<rparr>
         = (Some (Inr (Some CROSS)),
            \<lparr>board = [[-1, 1, 0], [1, -1, 0], [0, 0, -1]], players = [a, b], shuffle = False,
             side = sd(a := CROSS, b := NOUGHT),
             calls = [Start a, Start b,
                      Move a [[0, 0, 0], [0, 0, 0], [0, 0, 0]],
                      Move b [[-1, 0, 0], [0, 0, 0], [0, 0, 0]],
                      Move a [[-1, 1, 0], [0, 0, 0], [0, 0, 0]],
                      Move b [[-1, 1, 0], [0, -1, 0], [0, 0, 0]],
                      Move a [[-1, 1, 0], [1, -1, 0], [0, 0, 0]]]\<rparr>)"
proof -
  let ?st = "scripted (diagonal_script a b)"
  let ?G = "\<lambda>B C. \<lparr>board = B, players = [a, b], shuffle = False,
                     side = sd(a := CROSS, b := NOUGHT), calls = [Start a, Start b] @ C\<rparr>"
  let ?B0 = "[[0, 0, 0], [0, 0, 0], [0, 0, 0::int]]"
  let ?B1 = "[[-1, 0, 0], [0, 0, 0], [0, 0, 0::int]]"
  let ?B2 = "[[-1, 1, 0], [0, 0, 0], [0, 0, 0::int]]"
  let ?B3 = "[[-1, 1, 0], [0, -1, 0], [0, 0, 0::int]]"
  let ?B4 = "[[-1, 1, 0], [1, -1, 0], [0, 0, 0::int]]"
  let ?B5 = "[[-1, 1, 0], [1, -1, 0], [0, 0, -1::int]]"
  have t1: "turn ?st a (?G ?B0 []) = (None, ?G ?B1 [Move a ?B0])"
    using assms by (simp add: turn_eval)
  have t2: "turn ?st b (?G ?B1 [Move a ?B0]) = (None, ?G ?B2 [Move a ?B0, Move b ?B1])"
    using assms by (simp add: turn_eval)
  have t3: "turn ?st a (?G ?B2 [Move a ?B0, Move b ?B1])
            = (None, ?G ?B3 [Move a ?B0, Move b ?B1, Move a ?B2])"
    using assms by (simp add: turn_eval)
  have t4: "turn ?st b (?G ?B3 [Move a ?B0, Move b ?B1, Move a ?B2])
            = (None, ?G ?B4 [Move a ?B0, Move b ?B1, Move a ?B2, Move b ?B3])"
    using assms by (simp add: turn_eval)
  have t5: "turn ?st a (?G ?B4 [Move a ?B0, Move b ?B1, Move a ?B2, Move b ?B3])
            = (Some (Inr (Some CROSS)),
               ?G ?B5 [Move a ?B0, Move b ?B1, Move a ?B2, Move b ?B3, Move a ?B4])"
    using assms by (simp add: turn_eval)
  have f: "5 + j = Suc (Suc (Suc (Suc (Suc j))))" by simp
  have i: "[a, b] ! (0 mod length [a, b]) = a" "[a, b] ! (Suc 0 mod length [a, b]) = b"
    "[a, b] ! (Suc (Suc 0) mod length [a, b]) = a"
    "[a, b] ! (Suc (Suc (Suc 0)) mod length [a, b]) = b"
    "[a, b] ! (Suc (Suc (Suc (Suc 0))) mod length [a, b]) = a"
    by (simp_all add: mod_Suc)
  have "play_loop (5 + j) ?st [a, b] 0 (?G ?B0 [])
        = (Some (Inr (Some CROSS)),
           ?G ?B5 [Move a ?B0, Move b ?B1, Move a ?B2, Move b ?B3, Move a ?B4])"
    unfolding f
    by (simp only: play_loop_next[OF i(1) t1] play_loop_next[OF i(2) t2]
        play_loop_next[OF i(3) t3] play_loop_next[OF i(4) t4] play_loop_last[OF i(5) t5])
  then show ?thesis by simp
qed

theorem play_terminates_witness:
  "wf_game 3 ((example_game 3 False)\<lparr>calls := [Start 0, Start 1]\<rparr>)
   \<and> fst (play 9 (scripted (diagonal_script 0 1)) id
             ((example_game 3 False)\<lparr>calls := [Start 0, Start 1]\<rparr>))
       = Some (Inr (Some CROSS))
   \<and> requests (calls (snd (play 9 (scripted (diagonal_script 0 1)) id
             ((example_game 3 False)\<lparr>calls := [Start 0, Start 1]\<rparr>)))) = 5
   \<and> valid_move (board (example_game 3 False)) (0, 0)
   \<and> length (empty_cells (board (example_game 3 False))) = 9
   \<and> length (empty_cells (board (snd (turn (scripted (diagonal_script 0 1)) 0
             ((example_game 3 False)\<lparr>calls := [Start 0, Start 1]\<rparr>))))) = 8"
proof -
  let ?G = "(example_game 3 False)\<lparr>calls := [Start 0, Start 1]\<rparr>"
  let ?st = "scripted (diagonal_script 0 1)"
  have e: "?G = \<lparr>board = [[0, 0, 0], [0, 0, 0], [0, 0, 0]], players = [0, 1],
                  shuffle = False, side = (\<lambda>_. EMPTY)(0 := CROSS, 1 := NOUGHT),
                  calls = [Start 0, Start 1]\<rparr>"
    by (simp add: example_game_def numeral_nat)
  have wf: "wf_game 3 ?G"
    unfolding e
    by (simp add: wf_game_def square_def cells_ok_def cell_ok_def side_ok_def sides_def)
  have pm: "mset (id (players ?G)) = mset (players ?G)" by simp
  have n: "(9::nat) = 5 + 4" by simp
  have "(0::nat) \<noteq> 1" by simp
  from diagonal_scenario[OF this, of 4 "\<lambda>_. EMPTY"]
  have p: "play 9 ?st id ?G
           = (Some (Inr (Some CROSS)),
              \<lparr>board = [[-1, 1, 0], [1, -1, 0], [0, 0, -1]], players = [0, 1],
               shuffle = False, side = (\<lambda>_. EMPTY)(0 := CROSS, 1 := NOUGHT),
               calls = [Start 0, Start 1,
                        Move 0 [[0, 0, 0], [0, 0, 0], [0, 0, 0]],
                        Move 1 [[-1, 0, 0], [0, 0, 0], [0, 0, 0]],
                        Move 0 [[-1, 1, 0], [0, 0, 0], [0, 0, 0]],
                        Move 1 [[-1, 1, 0], [0, -1, 0], [0, 0, 0]],
                        Move 0 [[-1, 1, 0], [1, -1, 0], [0, 0, 0]]]\<rparr>)"
    unfolding e n by (simp add: play_def Let_def)
  have v: "valid_move (board ?G) (?st 0 (calls ?G) (board ?G))"
    unfolding e by (simp add: turn_eval)
  have c9: "length (empty_cells (board (example_game 3 False))) = 9"
    by (simp add: length_empty_cells count_empty_def example_game_def numeral_nat)
  have v0: "valid_move (board (example_game 3 False)) (0, 0)"
    by (simp add: valid_move_cell example_game_def numeral_nat)
  have b: "board ?G = board (example_game 3 False)" by simp
  have "0 \<in> set (players ?G)" by (simp add: example_game_def)
  with play_terminates[of 3 ?G id ?st, OF wf _ pm] v
  have "length (empty_cells (board (snd (turn ?st 0 ?G)))) + 1
        = length (empty_cells (board ?G))"
    by simp
  then have c8: "length (empty_cells (board (snd (turn ?st 0 ?G)))) = 8"
    unfolding b c9 by simp
  have rq: "requests (calls (snd (play 9 ?st id ?G))) = 5"
    unfolding p by (simp add: requests_def)
  have r: "fst (play 9 ?st id ?G) = Some (Inr (Some CROSS))"
    unfolding p by simp
  show ?thesis
    by (intro conjI wf r rq v0 c9 c8)
qed

subsection \<open>Players, sides and notifications\<close>

lemma set_players_two:
  "set_players [a, b] g
   = Inr (g\<lparr>side := (side g)(a := CROSS, b := NOUGHT), players := [a, b]\<rparr>)"
  by (simp add: set_players_def sides_def)

lemma set_players_error:
  "length ps \<noteq> 2 \<Longrightarrow> set_players ps g = Inl (ValueError_players 2)"
  by (simp add: set_players_def sides_def)

lemma set_players_ok:
  "length ps = 2 \<Longrightarrow> \<exists>g'. set_players ps g = Inr g'"
  by (simp add: set_players_def sides_def)

lemma play_frame:
  assumes "play k st rnd g = (r, g')"
  shows "side g' = side g \<and> shuffle g' = shuffle g \<and>
         players g' = (if shuffle g then rnd (players g) else players g) \<and>
         (\<exists>mv. calls g' = calls g @ mv \<and> list_all is_Move mv \<and> length mv \<le> k)"
proof (cases "(if shuffle g then rnd (players g) else players g) = []")
  case True
  then have "g' = g\<lparr>players := if shuffle g then rnd (players g) else players g\<rparr>"
    using assms unfolding play_unfold by simp
  then show ?thesis by simp
next
  case False
  then have "play_loop k st (if shuffle g then rnd (players g) else players g) 0
       (g\<lparr>players := if shuffle g then rnd (players g) else players g\<rparr>) = (r, g')"
    using assms unfolding play_unfold by simp
  from play_loop_frame[OF this] show ?thesis by simp
qed

lemma run_unfold:
  "play k st rnd (g\<lparr>board := fill (board g) EMPTY,
                    calls := calls g @ map Start (players g)\<rparr>) = (r, g3) \<Longrightarrow>
   run k st rnd g =
     (case r of
        Some (Inr w) \<Rightarrow> (r, g3\<lparr>calls := calls g3 @ map (\<lambda>p. Finish p w) (players g3)\<rparr>)
      | _ \<Rightarrow> (r, g3))"
  by (simp add: run_def Let_def split: option.splits sum.splits)

lemma run_frame:
  assumes "run k st rnd g = (r, g')"
  shows "side g' = side g \<and> shuffle g' = shuffle g \<and>
         players g' = (if shuffle g then rnd (players g) else players g) \<and>
         (\<exists>mv. list_all is_Move mv \<and> length mv \<le> k \<and>
            calls g' = calls g @ map Start (players g) @ mv
               @ (case r of Some (Inr w) \<Rightarrow> map (\<lambda>p. Finish p w) (players g') | _ \<Rightarrow> []))"
proof -
  let ?g2 = "g\<lparr>board := fill (board g) EMPTY, calls := calls g @ map Start (players g)\<rparr>"
  obtain r3 g3 where p: "play k st rnd ?g2 = (r3, g3)" by (cases "play k st rnd ?g2")
  from play_frame[OF p] obtain mv where
    f: "side g3 = side g" "shuffle g3 = shuffle g"
       "players g3 = (if shuffle g then rnd (players g) else players g)"
       "calls g3 = calls g @ map Start (players g) @ mv" "list_all is_Move mv" "length mv \<le> k"
    by auto
  have r: "r = r3" using assms run_unfold[OF p] by (auto split: option.splits sum.splits)
  have g': "g' = (case r3 of
        Some (Inr w) \<Rightarrow> g3\<lparr>calls := calls g3 @ map (\<lambda>p. Finish p w) (players g3)\<rparr>
      | _ \<Rightarrow> g3)"
    using assms run_unfold[OF p] by (auto split: option.splits sum.splits)
  have "side g' = side g \<and> shuffle g' = shuffle g \<and>
         players g' = (if shuffle g then rnd (players g) else players g) \<and>
         list_all is_Move mv \<and> length mv \<le> k \<and>
            calls g' = calls g @ map Start (players g) @ mv
               @ (case r of Some (Inr w) \<Rightarrow> map (\<lambda>p. Finish p w) (players g') | _ \<Rightarrow> [])"
    using f unfolding g' r by (auto split: option.splits sum.splits)
  then show ?thesis by blast
qed

text \<open>
  Claim C4, amended. \<open>set_players\<close> raises its ValueError exactly when the list does not
  have two entries. For two entries it stores the list and assigns CROSS to the first
  and then NOUGHT to the second; when the two entries are different players, the first
  holds CROSS and the second NOUGHT afterwards. Neither \<open>play\<close> nor \<open>run\<close>, with or without
  shuffling, changes the side of any player.
\<close>

theorem set_players_binding:
  "((\<exists>e. set_players ps g = Inl e) = (length ps \<noteq> 2))
   \<and> (length ps \<noteq> 2 \<longrightarrow> set_players ps g = Inl (ValueError_players 2))
   \<and> set_players [a, b] g
       = Inr (g\<lparr>side := (side g)(a := CROSS, b := NOUGHT), players := [a, b]\<rparr>)
   \<and> (a \<noteq> b \<longrightarrow> assigned [a, b] g = Inr [CROSS, NOUGHT])
   \<and> side (snd (play k st rnd g)) = side g
   \<and> side (snd (run k st rnd g)) = side g"
proof -
  have "(\<exists>e. set_players ps g = Inl e) = (length ps \<noteq> 2)"
    using set_players_error[of ps g] set_players_ok[of ps g] by (cases "length ps = 2") auto
  moreover have "a \<noteq> b \<longrightarrow> assigned [a, b] g = Inr [CROSS, NOUGHT]"
    by (simp add: assigned_def set_players_two)
  moreover have "side (snd (play k st rnd g)) = side g"
    using play_frame[of k st rnd g] by (cases "play k st rnd g") simp
  moreover have "side (snd (run k st rnd g)) = side g"
    using run_frame[of k st rnd g] by (cases "run k st rnd g") simp
  ultimately show ?thesis
    using set_players_error[of ps g] set_players_two[of a b g] by simp
qed

theorem set_players_binding_witness:
  "set_players [0, 1, 2] (example_game 3 True) = Inl (ValueError_players 2)
   \<and> set_players [] (example_game 3 True) = Inl (ValueError_players 2)
   \<and> assigned [1, 0] (example_game 3 True) = Inr [CROSS, NOUGHT]
   \<and> side (snd (run 9 (always (0, 0)) rev (example_game 3 True))) = side (example_game 3 True)"
  using set_players_binding[of "[0, 1, 2]" "example_game 3 True" 1 0 9 "always (0, 0)" rev]
        set_players_binding[of "[]" "example_game 3 True" 1 0 9 "always (0, 0)" rev]
  by simp

text \<open>
  The same player given twice is a list of length two: \<open>set_players\<close> succeeds, the second
  assignment overwrites the first, and both entries hold NOUGHT.
\<close>

theorem set_players_same_player_counterexample:
  "assigned [0, 0] (example_game 3 False) = Inr [NOUGHT, NOUGHT]"
  by (simp add: assigned_def set_players_def sides_def example_game_def)

text \<open>
  Claim C6, amended. In every \<open>run\<close> the \<open>start\<close> notifications come first and in the order
  the player list has when \<open>run\<close> is entered; the requests for moves follow, and after a
  win or a draw the \<open>finish\<close> notifications, in the order of the list as \<open>play\<close> left it.
  With shuffling enabled \<open>play\<close> stores the rearranged list, so the order a later \<open>run\<close>
  starts from is the shuffled one. No player's side is changed.
\<close>

theorem run_notifications:
  assumes "run k st rnd g = (r, g')"
  shows "side g' = side g
         \<and> players g' = (if shuffle g then rnd (players g) else players g)
         \<and> (\<exists>mv. list_all is_Move mv \<and>
              calls g' = calls g @ map Start (players g) @ mv
                 @ (case r of Some (Inr w) \<Rightarrow> map (\<lambda>p. Finish p w) (players g') | _ \<Rightarrow> []))"
  using run_frame[OF assms] by blast

lemma shuffled_run_1:
  "run 1 (always (0, 0)) rev (example_game 1 True)
   = (Some (Inr (Some NOUGHT)),
      \<lparr>board = [[NOUGHT]], players = [1, 0], shuffle = True,
       side = (\<lambda>_. EMPTY)(0 := CROSS, 1 := NOUGHT),
       calls = [Start 0, Start 1, Move 1 [[EMPTY]],
                Finish 1 (Some NOUGHT), Finish 0 (Some NOUGHT)]\<rparr>)"
  by (simp add: game_eval)

lemma shuffled_run_2:
  "run 1 (always (0, 0)) rev
      \<lparr>board = [[NOUGHT]], players = [1, 0], shuffle = True,
       side = (\<lambda>_. EMPTY)(0 := CROSS, 1 := NOUGHT), calls = C\<rparr>
   = (Some (Inr (Some CROSS)),
      \<lparr>board = [[CROSS]], players = [0, 1], shuffle = True,
       side = (\<lambda>_. EMPTY)(0 := CROSS, 1 := NOUGHT),
       calls = C @ [Start 1, Start 0, Move 0 [[EMPTY]],
                Finish 0 (Some CROSS), Finish 1 (Some CROSS)]\<rparr>)"
  by (simp add: game_eval)

theorem run_notifications_witness:
  "run 1 (always (0, 0)) rev (example_game 1 True)
   = (Some (Inr (Some NOUGHT)),
      \<lparr>board = [[NOUGHT]], players = [1, 0], shuffle = True,
       side = (\<lambda>_. EMPTY)(0 := CROSS, 1 := NOUGHT),
       calls = [Start 0, Start 1, Move 1 [[EMPTY]],
                Finish 1 (Some NOUGHT), Finish 0 (Some NOUGHT)]\<rparr>)
   \<and> side (example_game 1 True) = (\<lambda>_. EMPTY)(0 := CROSS, 1 := NOUGHT)
   \<and> players (example_game 1 True) = [0, 1]"
  using run_notifications[OF shuffled_run_1] shuffled_run_1
  by (simp add: example_game_def)

text \<open>
  Two runs in a row with shuffling enabled, the generator reversing the list each time:
  the players were supplied as 0, 1, the first run notifies \<open>finish\<close> in the order 1, 0 and
  the second run notifies \<open>start\<close> in the order 1, 0.
\<close>

theorem start_order_after_shuffle_counterexample:
  "players (example_game 1 True) = [0, 1]
   \<and> calls (snd (run 1 (always (0, 0)) rev
                (snd (run 1 (always (0, 0)) rev (example_game 1 True)))))
     = [Start 0, Start 1, Move 1 [[EMPTY]], Finish 1 (Some NOUGHT), Finish 0 (Some NOUGHT),
        Start 1, Start 0, Move 0 [[EMPTY]], Finish 0 (Some CROSS), Finish 1 (Some CROSS)]"
  unfolding shuffled_run_1 snd_conv shuffled_run_2 by (simp add: example_game_def)

subsection \<open>The board invariant\<close>

lemma init_wf:
  assumes "init ps n sh sd = Inr g0"
  shows "wf_game n g0"
proof -
  have len: "length ps = 2"
    using assms by (auto simp: init_def set_players_def sides_def split: if_splits)
  then obtain a b where ps: "ps = [a, b]"
    by (cases ps; cases "tl ps") auto
  have "g0 = \<lparr>board = replicate n (replicate n EMPTY), players = [a, b], shuffle = sh,
              side = sd(a := CROSS, b := NOUGHT), calls = []\<rparr>"
    using assms unfolding init_def ps set_players_two by simp
  then show ?thesis
    by (simp add: wf_game_def square_def cells_ok_def cell_ok_def side_ok_def sides_def
        list_all_iff)
qed

lemma play_wf:
  assumes "wf_game n g" "mset (rnd (players g)) = mset (players g)"
  shows "wf_game n (snd (play k st rnd g))"
proof -
  let ?ps = "if shuffle g then rnd (players g) else players g"
  let ?g = "g\<lparr>players := ?ps\<rparr>"
  obtain r g' where p: "play k st rnd g = (r, g')" by (cases "play k st rnd g")
  have len: "length ?ps = length (players g)" and st: "set ?ps = set (players g)"
    using shuffled_players[OF assms(2)] by simp_all
  have ne: "?ps \<noteq> []" using assms(1) len by (auto simp: wf_game_def sides_def)
  have sd: "list_all (\<lambda>p. side_ok (side ?g p)) ?ps"
    using assms(1) st by (simp add: wf_game_def list_all_iff)
  have sq: "square n (board ?g)" "cells_ok (board ?g)" using assms(1) by (simp_all add: wf_game_def)
  have "play_loop k st ?ps 0 ?g = (r, g')" using p ne unfolding play_unfold by simp
  from play_loop_board_ok[OF ne sd sq this]
  have b: "square n (board g')" "cells_ok (board g')" by simp_all
  have f: "side g' = side g" "players g' = ?ps" using play_frame[OF p] by simp_all
  have "list_all (\<lambda>p. side_ok (side g' p)) (players g')" using sd f by simp
  then show ?thesis using b f len assms(1) p by (simp add: wf_game_def)
qed

lemma run_wf:
  assumes "wf_game n g" "mset (rnd (players g)) = mset (players g)"
  shows "wf_game n (snd (run k st rnd g))"
proof -
  let ?g2 = "g\<lparr>board := fill (board g) EMPTY, calls := calls g @ map Start (players g)\<rparr>"
  have wf2: "wf_game n ?g2"
    using assms(1) by (simp add: wf_game_def square_fill cells_ok_fill cell_ok_def)
  have "mset (rnd (players ?g2)) = mset (players ?g2)" using assms(2) by simp
  note w = play_wf[of n ?g2 rnd k st, OF wf2 this]
  obtain r3 g3 where p: "play k st rnd ?g2 = (r3, g3)" by (cases "play k st rnd ?g2")
  have "wf_game n g3" using w p by simp
  then show ?thesis
    unfolding run_unfold[OF p] by (auto simp: wf_game_def split: option.splits sum.splits)
qed

text \<open>
  Claim C7. A game whose board is n by n with cells 0, 1 or -1 and whose players hold
  sides of the side list remains such a game through \<open>play\<close> and \<open>run\<close>, whatever the
  players answer and however many turns are taken (the fuel \<open>k\<close> is arbitrary, so the
  state after every turn is covered). Resetting the board and writing a player's side
  into a cell keep the shape and the cell values, and the constructor builds such a game.
\<close>

theorem board_invariant:
  assumes "wf_game n g" "mset (rnd (players g)) = mset (players g)"
  shows "wf_game n (snd (play k st rnd g))
         \<and> wf_game n (snd (run k st rnd g))
         \<and> square n (board (snd (run k st rnd g))) \<and> cells_ok (board (snd (run k st rnd g)))
         \<and> square n (fill (board g) EMPTY) \<and> cells_ok (fill (board g) EMPTY)
         \<and> (\<forall>p m. p \<in> set (players g) \<longrightarrow>
               square n (set_cell (board g) m (side g p))
               \<and> cells_ok (set_cell (board g) m (side g p)))
         \<and> (\<forall>ps sh sd g0. init ps n sh sd = Inr g0 \<longrightarrow> wf_game n g0)"
proof -
  have r: "wf_game n (snd (run k st rnd g))" by (rule run_wf[of n g rnd, OF assms])
  have "\<forall>p m. p \<in> set (players g) \<longrightarrow>
               square n (set_cell (board g) m (side g p))
               \<and> cells_ok (set_cell (board g) m (side g p))"
  proof (intro allI impI)
    fix p m assume "p \<in> set (players g)"
    then have "cell_ok (side g p)"
      using assms(1) by (auto simp: wf_game_def list_all_iff side_ok_def sides_def cell_ok_def)
    then show "square n (set_cell (board g) m (side g p))
               \<and> cells_ok (set_cell (board g) m (side g p))"
      using assms(1) by (simp add: wf_game_def square_set_cell cells_ok_set_cell)
  qed
  moreover have "square n (fill (board g) EMPTY) \<and> cells_ok (fill (board g) EMPTY)"
    using assms(1) by (simp add: wf_game_def square_fill cells_ok_fill cell_ok_def)
  moreover have "square n (board (snd (run k st rnd g))) \<and> cells_ok (board (snd (run k st rnd g)))"
    using r by (simp add: wf_game_def)
  ultimately show ?thesis
    using play_wf[of n g rnd k st, OF assms] r init_wf by blast
qed

theorem board_invariant_witness:
  "wf_game 3 (example_game 3 True)
   \<and> mset (rev (players (example_game 3 True))) = mset (players (example_game 3 True))
   \<and> init [0, 1] 3 True (\<lambda>_. EMPTY) = Inr (example_game 3 True)
   \<and> wf_game 3 (snd (run 2 (always (1, 1)) rev (example_game 3 True)))
   \<and> cells_ok (board (snd (play 4 (always (1, 1)) rev (example_game 3 True))))"
  using board_invariant[of 3 "example_game 3 True" rev 2 "always (1, 1)"]
        board_invariant[of 3 "example_game 3 True" rev 4 "always (1, 1)"]
        init_example[of 3 True]
  by (simp add: wf_game_def square_def cells_ok_def cell_ok_def side_ok_def sides_def
      example_game_def numeral_nat)

subsection \<open>Illegal moves\<close>






subsection \<open>The board of one cell\<close>

lemma square_one: "square 1 b \<Longrightarrow> \<exists>c. b = [[c]]"
  by (cases b; cases "hd b") (auto simp: square_def length_Suc_conv)

lemma valid_move_one: "valid_move [[c]] m \<longleftrightarrow> m = (0, 0) \<and> c = EMPTY"
  by (cases m) (auto simp: valid_move_cell)

lemma turn_one:
  assumes "board g = [[c]]" "side_ok (side g p)"
  shows "fst (turn st p g) =
           (if valid_move (board g) (st p (calls g) (board g))
            then Some (Inr (Some (side g p)))
            else Some (Inl (ValueError_move (st p (calls g) (board g)))))"
proof (cases "valid_move (board g) (st p (calls g) (board g))")
  case False
  then show ?thesis by (simp add: turn_invalid)
next
  case True
  then have c0: "c = EMPTY" using assms(1) by (simp add: valid_move_one)
  have m: "st p (calls g) [[EMPTY]] = (0, 0)"
    using True assms(1) c0 by (simp add: valid_move_one)
  have "side g p = NOUGHT \<or> side g p = CROSS"
    using assms(2) by (auto simp: side_ok_def sides_def)
  then show ?thesis
    using True assms(1) m c0
    by (auto simp: turn_def Let_def winning_move_def axis_index_def set_cell_def)
qed

lemma play_one:
  assumes "wf_game 1 g" "mset (rnd (players g)) = mset (players g)" "0 < k"
  shows "fst (play k st rnd g) =
           (if valid_move (board g)
                 (st (hd (if shuffle g then rnd (players g) else players g)) (calls g) (board g))
            then Some (Inr (Some (side g (hd (if shuffle g then rnd (players g) else players g)))))
            else Some (Inl (ValueError_move
                 (st (hd (if shuffle g then rnd (players g) else players g)) (calls g) (board g)))))"
proof -
  define ps where "ps = (if shuffle g then rnd (players g) else players g)"
  define g0 where "g0 = g\<lparr>players := ps\<rparr>"
  obtain c where c: "board g = [[c]]" using assms(1) square_one by (auto simp: wf_game_def)
  have len: "length ps = length (players g)" and st: "set ps = set (players g)"
    using shuffled_players[OF assms(2)] by (simp_all add: ps_def)
  have ne: "ps \<noteq> []" using assms(1) len by (auto simp: wf_game_def sides_def)
  have hd1: "ps ! (0 mod length ps) = hd ps" using ne by (simp add: hd_conv_nth)
  have "hd ps \<in> set ps" using ne by simp
  then have hd2: "hd ps \<in> set (players g)" using st by simp
  have so: "side_ok (side g0 (hd ps))"
    using assms(1) hd2 by (simp add: wf_game_def list_all_iff g0_def)
  have g0: "board g0 = [[c]]" "calls g0 = calls g" "side g0 = side g"
    using c by (simp_all add: g0_def)
  obtain k' where k: "k = Suc k'" using assms(3) by (cases k) auto
  obtain r1 g1 where t: "turn st (hd ps) g0 = (r1, g1)" by (cases "turn st (hd ps) g0")
  have r1: "r1 = (if valid_move (board g) (st (hd ps) (calls g) (board g))
            then Some (Inr (Some (side g (hd ps))))
            else Some (Inl (ValueError_move (st (hd ps) (calls g) (board g)))))"
    using turn_one[OF g0(1) so, of st] t g0 c by simp
  then obtain r where r: "r1 = Some r" by (auto split: if_splits)
  have "play_loop k st ps 0 g0 = (r1, g1)"
    unfolding k r using play_loop_last[OF hd1, of st g0 r g1 k'] t r by simp
  then have "play k st rnd g = (r1, g1)"
    using ne unfolding play_unfold ps_def[symmetric] g0_def[symmetric] by simp
  then show ?thesis using r1 by (simp add: ps_def)
qed

text \<open>
  Claim C10. On the board of one cell, \<open>run\<close> returns the side of the player who moves
  first when that player answers (0, 0), the only cell, and raises the ValueError of the
  answer otherwise; \<open>play\<close> does the same for a valid first answer on whatever board it
  is called with. Neither ever returns the draw value.
\<close>

theorem one_by_one_first_move_wins:
  assumes "wf_game 1 g" "mset (rnd (players g)) = mset (players g)" "0 < k"
  shows "fst (run k st rnd g) =
           (if st (hd (if shuffle g then rnd (players g) else players g))
                  (calls g @ map Start (players g)) [[EMPTY]] = (0, 0)
            then Some (Inr (Some (side g (hd (if shuffle g then rnd (players g) else players g)))))
            else Some (Inl (ValueError_move
                   (st (hd (if shuffle g then rnd (players g) else players g))
                       (calls g @ map Start (players g)) [[EMPTY]]))))
         \<and> fst (run k st rnd g) \<noteq> Some (Inr None)
         \<and> fst (play k st rnd g) =
           (if valid_move (board g)
                 (st (hd (if shuffle g then rnd (players g) else players g)) (calls g) (board g))
            then Some (Inr (Some (side g (hd (if shuffle g then rnd (players g) else players g)))))
            else Some (Inl (ValueError_move
                 (st (hd (if shuffle g then rnd (players g) else players g)) (calls g) (board g)))))
         \<and> fst (play k st rnd g) \<noteq> Some (Inr None)"
proof -
  let ?g2 = "g\<lparr>board := fill (board g) EMPTY, calls := calls g @ map Start (players g)\<rparr>"
  obtain c where c: "board g = [[c]]" using assms(1) square_one by (auto simp: wf_game_def)
  have b2: "board ?g2 = [[EMPTY]]" using c by (simp add: fill_def)
  have wf2: "wf_game 1 ?g2"
    using assms(1) by (simp add: wf_game_def square_fill cells_ok_fill cell_ok_def)
  have m2: "mset (rnd (players ?g2)) = mset (players ?g2)" using assms(2) by simp
  note p2 = play_one[of ?g2 rnd k st, OF wf2 m2 assms(3)]
  obtain r3 g3 where p: "play k st rnd ?g2 = (r3, g3)" by (cases "play k st rnd ?g2")
  have "fst (run k st rnd g) = r3"
    unfolding run_unfold[OF p] by (auto split: option.splits sum.splits)
  then have run: "fst (run k st rnd g) = fst (play k st rnd ?g2)" using p by simp
  show ?thesis
    unfolding run p2 play_one[of g rnd k st, OF assms]
    by (simp add: b2 valid_move_one)
qed

theorem one_by_one_first_move_wins_witness:
  "wf_game 1 (example_game 1 True)
   \<and> mset (rev (players (example_game 1 True))) = mset (players (example_game 1 True))
   \<and> fst (run 1 (always (0, 0)) rev (example_game 1 True)) = Some (Inr (Some NOUGHT))
   \<and> fst (play 1 (always (0, 0)) rev (example_game 1 True)) = Some (Inr (Some NOUGHT))
   \<and> fst (run 1 (always (0, 1)) rev (example_game 1 True)) = Some (Inl (ValueError_move (0, 1)))"
  using one_by_one_first_move_wins[of "example_game 1 True" rev 1 "always (0, 0)"]
        one_by_one_first_move_wins[of "example_game 1 True" rev 1 "always (0, 1)"]
  by (simp add: wf_game_def square_def cells_ok_def cell_ok_def side_ok_def sides_def
      example_game_def always_def valid_move_cell)

subsection \<open>The diagonal match\<close>

lemma init_two:
  "init [a, b] 3 sh sd
   = Inr \<lparr>board = [[0, 0, 0], [0, 0, 0], [0, 0, 0]], players = [a, b], shuffle = sh,
          side = sd(a := CROSS, b := NOUGHT), calls = []\<rparr>"
  by (simp add: init_def set_players_two numeral_nat)

lemma diagonal_run:
  assumes "a \<noteq> b"
  shows "run (5 + j) (scripted (diagonal_script a b)) rnd
           \<lparr>board = [[0, 0, 0], [0, 0, 0], [0, 0, 0]], players = [a, b], shuffle = False,
            side = sd(a := CROSS, b := NOUGHT), calls = []\<rparr>
         = (Some (Inr (Some CROSS)),
            \<lparr>board = [[-1, 1, 0], [1, -1, 0], [0, 0, -1]], players = [a, b], shuffle = False,
             side = sd(a := CROSS, b := NOUGHT),
             calls = [Start a, Start b,
                      Move a [[0, 0, 0], [0, 0, 0], [0, 0, 0]],
                      Move b [[-1, 0, 0], [0, 0, 0], [0, 0, 0]],
                      Move a [[-1, 1, 0], [0, 0, 0], [0, 0, 0]],
                      Move b [[-1, 1, 0], [0, -1, 0], [0, 0, 0]],
                      Move a [[-1, 1, 0], [1, -1, 0], [0, 0, 0]],
                      Finish a (Some CROSS), Finish b (Some CROSS)]\<rparr>)"
  by (simp add: run_def play_def Let_def fill_def diagonal_scenario[OF assms])

text \<open>
  Claim C2, amended. In a game of size 3 built for the players A and B in that order,
  without shuffling, A is assigned CROSS (-1), the first entry of the side list, and B
  NOUGHT (+1). With the moves (0,0) by A, (0,1) by B, (1,1) by A, (1,0) by B, (2,2) by A,
  \<open>run\<close> returns -1: A completes the main diagonal, and \<open>finish\<close> is called on A and on B
  with winner -1.
\<close>

theorem diagonal_match:
  assumes "a \<noteq> b"
  shows "\<exists>g. init [a, b] 3 False sd = Inr g
           \<and> side g a = CROSS \<and> side g b = NOUGHT
           \<and> fst (run (5 + j) (scripted (diagonal_script a b)) rnd g) = Some (Inr (Some CROSS))
           \<and> board (snd (run (5 + j) (scripted (diagonal_script a b)) rnd g))
               = [[-1, 1, 0], [1, -1, 0], [0, 0, -1]]
           \<and> calls (snd (run (5 + j) (scripted (diagonal_script a b)) rnd g))
               = [Start a, Start b,
                  Move a [[0, 0, 0], [0, 0, 0], [0, 0, 0]],
                  Move b [[-1, 0, 0], [0, 0, 0], [0, 0, 0]],
                  Move a [[-1, 1, 0], [0, 0, 0], [0, 0, 0]],
                  Move b [[-1, 1, 0], [0, -1, 0], [0, 0, 0]],
                  Move a [[-1, 1, 0], [1, -1, 0], [0, 0, 0]],
                  Finish a (Some CROSS), Finish b (Some CROSS)]"
  using assms unfolding init_two by (simp add: diagonal_run[OF assms])

theorem diagonal_match_witness:
  "init [0, 1] 3 False (\<lambda>_. EMPTY) = Inr (example_game 3 False)
   \<and> fst (run 9 (scripted (diagonal_script 0 1)) id (example_game 3 False))
       = Some (Inr (Some CROSS))
   \<and> drop 7 (calls (snd (run 9 (scripted (diagonal_script 0 1)) id (example_game 3 False))))
       = [Finish 0 (Some CROSS), Finish 1 (Some CROSS)]"
  using diagonal_match[of 0 1 "\<lambda>_. EMPTY" 4 id] init_example[of 3 False]
  by simp

text \<open>
  With the players 0 and 1 supplied in that order, player 0 holds -1, not +1, and the
  run of the five moves returns -1, not +1.
\<close>

theorem first_player_is_cross_counterexample:
  "init [0, 1] 3 False (\<lambda>_. EMPTY) = Inr (example_game 3 False)
   \<and> side (example_game 3 False) 0 = CROSS
   \<and> side (example_game 3 False) 1 = NOUGHT
   \<and> fst (run 9 (scripted (diagonal_script 0 1)) id (example_game 3 False))
       = Some (Inr (Some CROSS))
   \<and> fst (run 9 (scripted (diagonal_script 0 1)) id (example_game 3 False))
       \<noteq> Some (Inr (Some NOUGHT))"
proof -
  have e: "example_game 3 False
           = \<lparr>board = [[0, 0, 0], [0, 0, 0], [0, 0, 0]], players = [0, 1], shuffle = False,
              side = (\<lambda>_. EMPTY)(0 := CROSS, 1 := NOUGHT), calls = []\<rparr>"
    by (simp add: example_game_def numeral_nat)
  have n: "(9::nat) = 5 + 4" by simp
  have "(0::nat) \<noteq> 1" by simp
  from diagonal_run[OF this, of 4 id "\<lambda>_. EMPTY"]
  have r: "fst (run 9 (scripted (diagonal_script 0 1)) id (example_game 3 False))
       = Some (Inr (Some CROSS))"
    unfolding e n by simp
  have s: "side (example_game 3 False) 0 = CROSS" "side (example_game 3 False) 1 = NOUGHT"
    by (simp_all add: example_game_def)
  show ?thesis
    unfolding r by (intro conjI init_example s) simp_all
qed

end
